theory Spec2Isabelle
  imports Main "HOL-Library.Monad_Syntax"
begin

section \<open>The tree store of quasar-project (src/stores/TreeStore.ts)\<close>

text \<open>
  The store keeps a flat array \<open>items\<close> of nodes linked by parent ids. Every getter and
  action of the store is embedded as a HOL function that takes the array as its first
  argument (the \<open>this.items\<close> of the source). An action that assigns \<open>this.items\<close>
  returns the new array next to its outcome; an action that throws returns the array it
  was called with, since every \<open>throw\<close> of the source precedes the first assignment.
  The two recursive traversals have no cycle guard in the source, so they are embedded as
  partial functions into \<open>option\<close>, where \<open>None\<close> stands for a call that never returns.
\<close>

subsection \<open>Data\<close>

text \<open>
  \<open>interface TreeNode { id: string; parent: string | null; label: string }\<close>.
  The field \<open>id\<close> is named \<open>id_n\<close> because \<open>id\<close> is the identity function of HOL.
\<close>

record TreeNode =
  id_n :: string
  parent :: "string option"
  label :: string

text \<open>
  The argument type of \<open>initialize\<close>, \<open>addItem\<close> and \<open>updateItem\<close> is
  \<open>{ id: number | string; parent: number | string | null; label: string }\<close>.
  The numbers of the model are the safe integers, the whole numbers of absolute value below
  \<open>2^53\<close>: each of them is a number of the source, and \<open>String\<close> yields its
  exact decimal numeral. \<open>safe n\<close> is the number \<open>n\<close> for such an \<open>n\<close>, and
  \<open>int_of\<close> reads it back. Larger whole numbers, where \<open>String\<close> rounds the digits or
  switches to exponent form, as well as fractions, \<open>NaN\<close> and the infinities are not
  values of the type, so the model says nothing about them.
\<close>

typedef safe_int = "{n :: int. \<bar>n\<bar> < 9007199254740992}"
  morphisms int_of safe
  by (rule exI [of _ 0]) simp

datatype raw = Num safe_int | Str string

record RawItem =
  in_id :: raw
  in_parent :: "raw option"
  in_label :: string

subsection \<open>Conversion of raw identifiers\<close>

definition digit_of :: "nat \<Rightarrow> char" where
  "digit_of d = ''0123456789'' ! d"

fun digits :: "nat \<Rightarrow> string" where
  "digits n = (if n < 10 then [digit_of n] else digits (n div 10) @ [digit_of (n mod 10)])"

declare digits.simps [simp del]

text \<open>
  \<open>String(x)\<close> of the source, on a number or a string: a safe integer prints as its
  decimal numeral, with a minus sign when it is negative.
\<close>

fun String_js :: "raw \<Rightarrow> string" where
  "String_js (Num n) =
     (if int_of n < 0 then CHR ''-'' # digits (nat (- int_of n)) else digits (nat (int_of n)))"
| "String_js (Str s) = s"

text \<open>
  The truth value of \<open>x\<close> in \<open>x ? a : b\<close>: the number zero and the empty string are
  falsy, every other number or string is truthy.
\<close>

fun truthy :: "raw \<Rightarrow> bool" where
  "truthy (Num n) = (int_of n \<noteq> 0)"
| "truthy (Str s) = (s \<noteq> [])"

text \<open>
  The object literal that \<open>initialize\<close>, \<open>addItem\<close> and \<open>updateItem\<close> all build:
  \<open>{ ...item, id: String(item.id), parent: item.parent ? String(item.parent) : null }\<close>.
\<close>

definition newItem :: "RawItem \<Rightarrow> TreeNode" where
  "newItem item =
     \<lparr> id_n = String_js (in_id item),
       parent = (case in_parent item of
                   None \<Rightarrow> None
                 | Some p \<Rightarrow> if truthy p then Some (String_js p) else None),
       label = in_label item \<rparr>"

subsection \<open>Getters\<close>

text \<open>\<open>state.items.find(item => item.id === id)\<close>\<close>

definition getItemById :: "TreeNode list \<Rightarrow> string \<Rightarrow> TreeNode option" where
  "getItemById items i = find (\<lambda>item. id_n item = i) items"

text \<open>\<open>state.items.filter(item => item.parent === id)\<close>\<close>

definition getChildren :: "TreeNode list \<Rightarrow> string \<Rightarrow> TreeNode list" where
  "getChildren items i = filter (\<lambda>item. parent item = Some i) items"

subsection \<open>Actions\<close>

text \<open>\<open>this.items = items.map(item => ({...}))\<close>\<close>

definition initialize :: "RawItem list \<Rightarrow> TreeNode list" where
  "initialize raws = map newItem raws"

text \<open>
  The loop \<open>children.forEach(child => { result.push(...f(child)) })\<close>: it runs over the
  children in order and appends what \<open>f\<close> returns for each to the result so far. It does
  not return when one of the calls of \<open>f\<close> does not.
\<close>

fun forEach_push :: "('a \<Rightarrow> 'b list option) \<Rightarrow> 'a list \<Rightarrow> 'b list \<Rightarrow> 'b list option" where
  "forEach_push f [] result = Some result"
| "forEach_push f (c # cs) result =
     Option.bind (f c) (\<lambda>sub. forEach_push f cs (result @ sub))"

lemma forEach_push_mono [partial_function_mono]:
  assumes "\<And>c. mono_option (\<lambda>f. F f c)"
  shows "mono_option (\<lambda>f. forEach_push (F f) cs result)"
proof (induction cs arbitrary: result)
  case Nil
  show ?case by (simp add: option.const_mono)
next
  case (Cons c cs)
  show ?case
    unfolding forEach_push.simps
    by (rule bind_mono) (rule assms, rule Cons.IH)
qed

text \<open>
  \<open>getAllChildren(id)\<close>: \<open>result\<close> starts as a copy of the direct children, then the loop
  appends the result of the recursive call for each child.
\<close>

partial_function (option) getAllChildren :: "TreeNode list \<Rightarrow> string \<Rightarrow> TreeNode list option" where
  "getAllChildren items i =
     (let children = getChildren items i in
      forEach_push (\<lambda>child. getAllChildren items (id_n child)) children children)"

declare getAllChildren.simps [code]

text \<open>
  \<open>getAllParents(id)\<close>. The test \<open>!item.parent\<close> holds for \<open>null\<close> and for the empty
  string.
\<close>

partial_function (option) getAllParents :: "TreeNode list \<Rightarrow> string \<Rightarrow> TreeNode list option" where
  "getAllParents items i =
     (case getItemById items i of
        None \<Rightarrow> Some []
      | Some item \<Rightarrow>
          (case parent item of
             None \<Rightarrow> Some []
           | Some p \<Rightarrow>
               if p = [] then Some []
               else (case getItemById items p of
                       None \<Rightarrow> Some []
                     | Some par \<Rightarrow>
                         Option.bind (getAllParents items (id_n par))
                           (\<lambda>rest. Some (par # rest)))))"

declare getAllParents.simps [code]

text \<open>The errors of the store, each with the id its message carries.\<close>

datatype error =
    DuplicateIdError string
  | ParentNotFoundError string
  | NotFoundError string
  | NewParentNotFoundError string
  | CycleError

datatype outcome = Returned | Thrown error

definition addItem :: "TreeNode list \<Rightarrow> RawItem \<Rightarrow> outcome \<times> TreeNode list" where
  "addItem items item =
     (let new = newItem item in
      if getItemById items (id_n new) \<noteq> None
      then (Thrown (DuplicateIdError (id_n new)), items)
      else (case parent new of
              Some p \<Rightarrow>
                if getItemById items p = None
                then (Thrown (ParentNotFoundError p), items)
                else (Returned, items @ [new])
            | None \<Rightarrow> (Returned, items @ [new])))"

text \<open>
  \<open>removeItem(id)\<close>: the descendants are computed once, on the array as it is at the call;
  the loop then filters the array once for each of them, and a last filter drops the node.
\<close>

definition removeItem :: "TreeNode list \<Rightarrow> string \<Rightarrow> (outcome \<times> TreeNode list) option" where
  "removeItem items i =
     (case getItemById items i of
        None \<Rightarrow> Some (Thrown (NotFoundError i), items)
      | Some item \<Rightarrow>
          (case getAllChildren items i of
             None \<Rightarrow> None
           | Some allChildren \<Rightarrow>
               Some (Returned,
                 filter (\<lambda>item. id_n item \<noteq> i)
                   (fold (\<lambda>child its. filter (\<lambda>item. id_n item \<noteq> id_n child) its)
                      allChildren items))))"

definition updateItem :: "TreeNode list \<Rightarrow> RawItem \<Rightarrow> (outcome \<times> TreeNode list) option" where
  "updateItem items updatedItem =
     (let new = newItem updatedItem in
      case getItemById items (id_n new) of
        None \<Rightarrow> Some (Thrown (NotFoundError (id_n new)), items)
      | Some existingItem \<Rightarrow>
          (let updated = map (\<lambda>item. if id_n item = id_n new then new else item) items in
           case parent new of
             None \<Rightarrow> Some (Returned, updated)
           | Some p \<Rightarrow>
               if parent new \<noteq> parent existingItem
               then (case getItemById items p of
                       None \<Rightarrow> Some (Thrown (NewParentNotFoundError p), items)
                     | Some newParent \<Rightarrow>
                         (case getAllParents items (id_n existingItem) of
                            None \<Rightarrow> None
                          | Some allParents \<Rightarrow>
                              if list_ex (\<lambda>par. id_n par = p) allParents
                              then Some (Thrown CycleError, items)
                              else Some (Returned, updated)))
               else Some (Returned, updated)))"

subsection \<open>The forest invariant\<close>

text \<open>
  The parent links of a collection, as pairs (child id, parent id). The collection is a
  forest when ids are unique, every non-null parent is the id of a node, and no id reaches
  itself along the links.
\<close>

definition edges :: "TreeNode list \<Rightarrow> (string \<times> string) list" where
  "edges items =
     concat (map (\<lambda>n. case parent n of None \<Rightarrow> [] | Some p \<Rightarrow> [(id_n n, p)]) items)"

definition parents_resolve :: "TreeNode list \<Rightarrow> bool" where
  "parents_resolve items =
     list_all (\<lambda>n. case parent n of None \<Rightarrow> True | Some p \<Rightarrow> getItemById items p \<noteq> None) items"

definition forest :: "TreeNode list \<Rightarrow> bool" where
  "forest items \<longleftrightarrow>
     distinct (map id_n items) \<and> parents_resolve items \<and> acyclic (set (edges items))"

subsection \<open>Collections used as concrete inputs\<close>

text \<open>The scenario of the specification: a root, its child and its grandchild.\<close>

definition tree3 :: "TreeNode list" where
  "tree3 = [\<lparr>id_n = ''1'', parent = None, label = ''Root''\<rparr>,
            \<lparr>id_n = ''2'', parent = Some ''1'', label = ''A''\<rparr>,
            \<lparr>id_n = ''3'', parent = Some ''2'', label = ''B''\<rparr>]"

text \<open>The collection of the store's own test of \<open>getAllChildren\<close>.\<close>

definition tree5 :: "TreeNode list" where
  "tree5 = [\<lparr>id_n = ''1'', parent = None, label = ''Root''\<rparr>,
            \<lparr>id_n = ''2'', parent = Some ''1'', label = ''Child 1''\<rparr>,
            \<lparr>id_n = ''3'', parent = Some ''1'', label = ''Child 2''\<rparr>,
            \<lparr>id_n = ''4'', parent = Some ''2'', label = ''Grandchild 1''\<rparr>,
            \<lparr>id_n = ''5'', parent = Some ''2'', label = ''Grandchild 2''\<rparr>]"

text \<open>The collection of the store's own test of the cycle check of \<open>updateItem\<close>.\<close>

definition tree2 :: "TreeNode list" where
  "tree2 = [\<lparr>id_n = ''1'', parent = None, label = ''Root''\<rparr>,
            \<lparr>id_n = ''2'', parent = Some ''1'', label = ''Child''\<rparr>]"

text \<open>A single root.\<close>

definition tree1 :: "TreeNode list" where
  "tree1 = [\<lparr>id_n = ''1'', parent = None, label = ''Root''\<rparr>]"

text \<open>A node that is its own parent; \<open>initialize\<close> accepts it, since it validates nothing.\<close>

definition loop1 :: "TreeNode list" where
  "loop1 = [\<lparr>id_n = ''1'', parent = Some ''1'', label = ''Root''\<rparr>]"

text \<open>A collection whose first node names a parent that is not there.\<close>

definition orphan2 :: "TreeNode list" where
  "orphan2 = [\<lparr>id_n = ''2'', parent = Some ''9'', label = ''A''\<rparr>,
              \<lparr>id_n = ''3'', parent = Some ''2'', label = ''B''\<rparr>]"


subsection \<open>The traversals as the specification words them\<close>

text \<open>
  The specification describes \<open>getAllChildren\<close> as a pre-order traversal: each direct
  child, in \<open>getChildren\<close> order, followed immediately by that child's own full descendant
  sequence, recursively. This is that description, for comparison with the source's
  function above.
\<close>

partial_function (option) getAllChildren_preorder :: "TreeNode list \<Rightarrow> string \<Rightarrow> TreeNode list option" where
  "getAllChildren_preorder items i =
     forEach_push
       (\<lambda>child. Option.bind (getAllChildren_preorder items (id_n child)) (\<lambda>sub. Some (child # sub)))
       (getChildren items i) []"

declare getAllChildren_preorder.simps [code]

text \<open>
  The specification describes the result of \<open>getAllParents\<close> as the ancestor chain,
  nearest first: it is empty for an id that resolves to no node, for a root, and for a node
  whose parent id resolves to no node; otherwise it is the node the parent id resolves to,
  followed by the chain of that node. A parent that is the empty string counts as no
  parent, as in the source's test \<open>!item.parent\<close>; no action of the store writes one.
\<close>

inductive ancestor_chain :: "TreeNode list \<Rightarrow> string \<Rightarrow> TreeNode list \<Rightarrow> bool" where
  unresolved: "getItemById items i = None \<Longrightarrow> ancestor_chain items i []"
| root: "getItemById items i = Some n \<Longrightarrow> parent n = None \<or> parent n = Some [] \<Longrightarrow>
           ancestor_chain items i []"
| dangling: "getItemById items i = Some n \<Longrightarrow> parent n = Some p \<Longrightarrow>
           getItemById items p = None \<Longrightarrow> ancestor_chain items i []"
| step: "getItemById items i = Some n \<Longrightarrow> parent n = Some p \<Longrightarrow> p \<noteq> [] \<Longrightarrow>
           getItemById items p = Some m \<Longrightarrow> ancestor_chain items p ps \<Longrightarrow>
           ancestor_chain items i (m # ps)"

code_pred ancestor_chain .

section \<open>Basic facts\<close>

lemma getItemById_None: "getItemById items i = None \<longleftrightarrow> i \<notin> id_n ` set items"
  by (auto simp: getItemById_def find_None_iff)

lemma getItemById_Some: "getItemById items i = Some n \<Longrightarrow> n \<in> set items \<and> id_n n = i"
  by (auto simp: getItemById_def find_Some_iff)

lemma edges_iff: "(a, b) \<in> set (edges items) \<longleftrightarrow> (\<exists>n \<in> set items. id_n n = a \<and> parent n = Some b)"
proof
  assume "(a, b) \<in> set (edges items)"
  then obtain n where "n \<in> set items" "(a, b) \<in> set (case parent n of None \<Rightarrow> [] | Some p \<Rightarrow> [(id_n n, p)])"
    by (auto simp: edges_def)
  then show "\<exists>n \<in> set items. id_n n = a \<and> parent n = Some b"
    by (cases "parent n") auto
next
  assume "\<exists>n \<in> set items. id_n n = a \<and> parent n = Some b"
  then show "(a, b) \<in> set (edges items)"
    by (force simp: edges_def)
qed

lemma getChildren_iff: "c \<in> set (getChildren items i) \<longleftrightarrow> c \<in> set items \<and> parent c = Some i"
  by (auto simp: getChildren_def)

lemma forEach_push_Some_iff:
  "forEach_push f cs r = Some out \<longleftrightarrow>
     (\<exists>dss. list_all2 (\<lambda>c ds. f c = Some ds) cs dss \<and> out = r @ concat dss)"
proof (induction cs arbitrary: r)
  case Nil
  show ?case by auto
next
  case (Cons c cs)
  show ?case
  proof (cases "f c")
    case None
    then show ?thesis by (auto simp: list_all2_Cons1)
  next
    case (Some ds)
    then show ?thesis by (auto simp: Cons.IH list_all2_Cons1)
  qed
qed

lemma forEach_push_total:
  "(\<And>c. c \<in> set cs \<Longrightarrow> \<exists>ds. f c = Some ds) \<Longrightarrow> \<exists>out. forEach_push f cs r = Some out"
proof (induction cs arbitrary: r)
  case Nil
  show ?case by simp
next
  case (Cons c cs)
  from Cons.prems obtain ds where "f c = Some ds" by auto
  moreover have "\<exists>out. forEach_push f cs (r @ ds) = Some out"
    by (rule Cons.IH) (simp add: Cons.prems)
  ultimately show ?case by simp
qed


lemma forEach_push_weak_cong:
  "cs = cs' \<Longrightarrow> r = r' \<Longrightarrow> forEach_push f cs r = forEach_push f cs' r'"
  by simp

lemma forest_tree3: "forest tree3"
  by code_simp

lemma forest_tree5: "forest tree5"
  by code_simp

lemma forest_tree2: "forest tree2"
  by code_simp

lemma forest_tree1: "forest tree1"
  by code_simp

section \<open>addItem\<close>

text \<open>
  Claim C7. \<open>addItem\<close> throws the duplicate-id error when the string form of the id is
  already the id of a node; otherwise it throws the parent-not-found error when the
  normalised parent is not null and is the id of no node; otherwise it returns with the
  new node appended at the end of the collection. When it throws, the collection is the
  one it was called with.
\<close>

theorem addItem_semantics:
  "(id_n (newItem item) \<in> id_n ` set items \<longrightarrow>
      addItem items item = (Thrown (DuplicateIdError (id_n (newItem item))), items)) \<and>
   (id_n (newItem item) \<notin> id_n ` set items \<longrightarrow>
      (\<forall>p. parent (newItem item) = Some p \<and> p \<notin> id_n ` set items \<longrightarrow>
         addItem items item = (Thrown (ParentNotFoundError p), items))) \<and>
   (id_n (newItem item) \<notin> id_n ` set items \<longrightarrow>
      (\<forall>p. parent (newItem item) = Some p \<longrightarrow> p \<in> id_n ` set items) \<longrightarrow>
         addItem items item = (Returned, items @ [newItem item]))"
  by (auto simp: addItem_def Let_def getItemById_None split: option.splits)

theorem addItem_semantics_witness:
  "addItem tree3 \<lparr>in_id = Num (safe 1), in_parent = None, in_label = ''Duplicate''\<rparr>
     = (Thrown (DuplicateIdError ''1''), tree3) \<and>
   addItem tree3 \<lparr>in_id = Str ''4'', in_parent = Some (Str ''999''), in_label = ''Child''\<rparr>
     = (Thrown (ParentNotFoundError ''999''), tree3) \<and>
   addItem tree3 \<lparr>in_id = Num (safe 4), in_parent = Some (Num (safe 3)), in_label = ''C''\<rparr>
     = (Returned, tree3 @ [\<lparr>id_n = ''4'', parent = Some ''3'', label = ''C''\<rparr>])"
  using addItem_semantics [of "\<lparr>in_id = Num (safe 1), in_parent = None, in_label = ''Duplicate''\<rparr>" tree3]
    addItem_semantics [of "\<lparr>in_id = Str ''4'', in_parent = Some (Str ''999''), in_label = ''Child''\<rparr>" tree3]
    addItem_semantics [of "\<lparr>in_id = Num (safe 4), in_parent = Some (Num (safe 3)), in_label = ''C''\<rparr>" tree3]
  by (simp add: newItem_def tree3_def digits.simps digit_of_def safe_inverse)

section \<open>Termination of the traversals\<close>

text \<open>
  Both traversals follow the parent links, one downwards and one upwards. The links of a
  collection are finitely many, so when no id reaches itself the relation they form is
  well-founded in both directions, and each traversal returns by induction along it.
  Neither proof needs the ids to be unique or the parents to resolve.
\<close>

lemma getAllChildren_returns:
  assumes "acyclic (set (edges items))"
  shows "\<exists>ds. getAllChildren items i = Some ds"
proof -
  have "wf (set (edges items))"
    using assms by (simp add: finite_acyclic_wf)
  then show ?thesis
  proof (induction i rule: wf_induct_rule)
    case (less i)
    have "\<exists>ds. getAllChildren items (id_n c) = Some ds" if "c \<in> set (getChildren items i)" for c
    proof -
      from that have "(id_n c, i) \<in> set (edges items)"
        by (auto simp: edges_iff getChildren_iff)
      then show ?thesis by (rule less.IH)
    qed
    then have "\<exists>out. forEach_push (\<lambda>child. getAllChildren items (id_n child))
                 (getChildren items i) (getChildren items i) = Some out"
      by (rule forEach_push_total)
    then show ?case
      by (subst getAllChildren.simps) (simp add: Let_def)
  qed
qed

lemma getAllParents_returns:
  assumes "acyclic (set (edges items))"
  shows "\<exists>ps. getAllParents items i = Some ps"
proof -
  have "wf ((set (edges items))\<inverse>)"
    using assms by (simp add: finite_acyclic_wf_converse)
  then show ?thesis
  proof (induction i rule: wf_induct_rule)
    case (less i)
    show ?case
    proof (cases "getItemById items i")
      case None
      then show ?thesis by (subst getAllParents.simps) simp
    next
      case (Some item)
      show ?thesis
      proof (cases "parent item")
        case None
        with Some show ?thesis by (subst getAllParents.simps) simp
      next
        case p: (Some p)
        show ?thesis
        proof (cases "getItemById items p")
          case None
          with Some p show ?thesis by (subst getAllParents.simps) simp
        next
          case par: (Some par)
          from Some p have "(i, p) \<in> set (edges items)"
            by (auto simp: edges_iff dest: getItemById_Some)
          then have "\<exists>ps. getAllParents items p = Some ps"
            by (intro less.IH) simp
          moreover have "id_n par = p"
            using par by (auto dest: getItemById_Some)
          ultimately show ?thesis
            using Some p par by (subst getAllParents.simps) auto
        qed
      qed
    qed
  qed
qed

text \<open>
  Claim C9. On a collection that satisfies the forest invariant, \<open>getAllChildren\<close> and
  \<open>getAllParents\<close> return, for every id, and what they return is a list.
\<close>

theorem traversals_terminate:
  assumes "forest items"
  shows "(\<exists>ds. getAllChildren items i = Some ds) \<and> (\<exists>ps. getAllParents items i = Some ps)"
  using assms getAllChildren_returns [of items i] getAllParents_returns [of items i]
  by (simp add: forest_def)

theorem traversals_terminate_witness:
  "forest tree3 \<and> (\<exists>ds. getAllChildren tree3 ''2'' = Some ds) \<and>
     (\<exists>ps. getAllParents tree3 ''2'' = Some ps)"
  using traversals_terminate [OF forest_tree3, of "''2''"] forest_tree3 by simp

section \<open>Descendants\<close>

text \<open>
  On a collection without cycles the ids that \<open>getAllChildren\<close> returns for an id are
  exactly the ids that reach it along one or more parent links, and every node it returns
  is a node of the collection.
\<close>

lemma fold_filter_ids:
  "fold (\<lambda>child its. filter (\<lambda>item. id_n item \<noteq> id_n child) its) cs items
     = filter (\<lambda>item. id_n item \<notin> id_n ` set cs) items"
  by (induction cs arbitrary: items) (auto intro: filter_cong)

lemma list_all2_rightD: "list_all2 P xs ys \<Longrightarrow> y \<in> set ys \<Longrightarrow> \<exists>x \<in> set xs. P x y"
  by (induction rule: list_all2_induct) auto

lemma list_all2_leftD: "list_all2 P xs ys \<Longrightarrow> x \<in> set xs \<Longrightarrow> \<exists>y \<in> set ys. P x y"
  by (induction rule: list_all2_induct) auto

lemma getAllChildren_ids:
  assumes "acyclic (set (edges items))" and "getAllChildren items i = Some ds"
  shows "id_n ` set ds = {d. (d, i) \<in> (set (edges items))\<^sup>+}"
proof -
  have "wf (set (edges items))"
    using assms(1) by (simp add: finite_acyclic_wf)
  then show ?thesis using assms(2)
  proof (induction i arbitrary: ds rule: wf_induct_rule)
    case (less i)
    let ?E = "set (edges items)"
    let ?cs = "getChildren items i"
    from less.prems obtain dss where
      dss: "list_all2 (\<lambda>c sub. getAllChildren items (id_n c) = Some sub) ?cs dss"
      and ds: "ds = ?cs @ concat dss"
      by (subst (asm) getAllChildren.simps) (auto simp: Let_def forEach_push_Some_iff)
    have child_edge: "(id_n c, i) \<in> ?E" if "c \<in> set ?cs" for c
      using that by (auto simp: edges_iff getChildren_iff)
    have edge_child: "\<exists>c \<in> set ?cs. id_n c = d" if "(d, i) \<in> ?E" for d
      using that by (auto simp: edges_iff getChildren_iff)
    have sub_ids: "id_n ` set sub = {d. (d, id_n c) \<in> ?E\<^sup>+}"
      if "c \<in> set ?cs" "getAllChildren items (id_n c) = Some sub" for c sub
      using child_edge [OF that(1)] that(2) by (rule less.IH)
    have set_ds: "set ds = set ?cs \<union> \<Union> (set ` set dss)"
      using ds by simp
    show ?case
    proof (intro set_eqI iffI)
      fix d assume "d \<in> id_n ` set ds"
      then obtain n where n: "n \<in> set ds" "d = id_n n" by blast
      then consider "n \<in> set ?cs" | sub where "sub \<in> set dss" "n \<in> set sub"
        unfolding set_ds by blast
      then have "(d, i) \<in> ?E\<^sup>+"
      proof cases
        case 1
        then show ?thesis using child_edge n(2) by blast
      next
        case 2
        from 2(1) dss obtain c where c: "c \<in> set ?cs" "getAllChildren items (id_n c) = Some sub"
          by (blast dest: list_all2_rightD)
        have "d \<in> id_n ` set sub" using 2(2) n(2) by blast
        then have "(d, id_n c) \<in> ?E\<^sup>+" unfolding sub_ids [OF c] by simp
        then show ?thesis using child_edge [OF c(1)] by (rule trancl_into_trancl)
      qed
      then show "d \<in> {d. (d, i) \<in> ?E\<^sup>+}" by simp
    next
      fix d assume "d \<in> {d. (d, i) \<in> ?E\<^sup>+}"
      then have "(d, i) \<in> ?E\<^sup>+" by simp
      then consider "(d, i) \<in> ?E" | m where "(d, m) \<in> ?E\<^sup>+" "(m, i) \<in> ?E"
        by (rule tranclE)
      then obtain n where "n \<in> set ds" "id_n n = d"
      proof cases
        case 1
        then obtain c where "c \<in> set ?cs" "id_n c = d" using edge_child by blast
        then show ?thesis using that unfolding set_ds by blast
      next
        case 2
        from 2(2) obtain c where c: "c \<in> set ?cs" "id_n c = m" using edge_child by blast
        with dss obtain sub where sub: "sub \<in> set dss" "getAllChildren items (id_n c) = Some sub"
          by (blast dest: list_all2_leftD)
        have "d \<in> id_n ` set sub"
          unfolding sub_ids [OF c(1) sub(2)] using 2(1) c(2) by simp
        then obtain n where "n \<in> set sub" "id_n n = d" by blast
        then show ?thesis using that sub(1) unfolding set_ds by blast
      qed
      then show "d \<in> id_n ` set ds" by blast
    qed
  qed
qed

lemma getAllChildren_subset:
  assumes "acyclic (set (edges items))" and "getAllChildren items i = Some ds"
  shows "set ds \<subseteq> set items"
proof -
  have "wf (set (edges items))"
    using assms(1) by (simp add: finite_acyclic_wf)
  then show ?thesis using assms(2)
  proof (induction i arbitrary: ds rule: wf_induct_rule)
    case (less i)
    let ?cs = "getChildren items i"
    from less.prems obtain dss where
      dss: "list_all2 (\<lambda>c sub. getAllChildren items (id_n c) = Some sub) ?cs dss"
      and ds: "ds = ?cs @ concat dss"
      by (subst (asm) getAllChildren.simps) (auto simp: Let_def forEach_push_Some_iff)
    have "set sub \<subseteq> set items" if "sub \<in> set dss" for sub
    proof -
      from that dss obtain c where c: "c \<in> set ?cs" "getAllChildren items (id_n c) = Some sub"
        by (auto dest: list_all2_rightD)
      then have "(id_n c, i) \<in> set (edges items)"
        by (auto simp: edges_iff getChildren_iff)
      then show ?thesis using c(2) by (rule less.IH)
    qed
    moreover have "set ?cs \<subseteq> set items" by (auto simp: getChildren_iff)
    ultimately show ?case using ds by auto
  qed
qed

section \<open>removeItem\<close>

lemma parents_resolve_iff:
  "parents_resolve items \<longleftrightarrow>
     (\<forall>n \<in> set items. \<forall>p. parent n = Some p \<longrightarrow> p \<in> id_n ` set items)"
  by (auto simp: parents_resolve_def list_all_iff getItemById_None split: option.splits)

lemma edges_filter_subset: "set (edges (filter P items)) \<subseteq> set (edges items)"
  by (auto simp: edges_iff)

lemma edges_append: "edges (xs @ ys) = edges xs @ edges ys"
  by (simp add: edges_def)

lemma removeItem_result:
  assumes "acyclic (set (edges items))" and "getItemById items i \<noteq> None"
  shows "\<exists>ds. getAllChildren items i = Some ds \<and>
           removeItem items i =
             Some (Returned, filter (\<lambda>n. id_n n \<noteq> i \<and> id_n n \<notin> id_n ` set ds) items)"
proof -
  from assms(1) obtain ds where ds: "getAllChildren items i = Some ds"
    using getAllChildren_returns by blast
  have "removeItem items i =
          Some (Returned, filter (\<lambda>n. id_n n \<noteq> i \<and> id_n n \<notin> id_n ` set ds) items)"
    using assms(2) ds by (auto simp: removeItem_def fold_filter_ids intro!: filter_cong)
  with ds show ?thesis by blast
qed

text \<open>
  Claim C5. On a forest, \<open>removeItem\<close> of the id of a node returns, and the collection it
  leaves is the original one filtered, in its order and with every kept node as it was, to
  the nodes that are neither the node with that id nor among \<open>getAllChildren\<close> of that
  id; the ids of these are the transitive descendants of the id. On any collection,
  \<open>removeItem\<close> of an id that no node has throws the not-found error and leaves the
  collection as it was.
\<close>

theorem removeItem_removes_subtree:
  "(forest items \<and> i \<in> id_n ` set items \<longrightarrow>
      (\<exists>ds. getAllChildren items i = Some ds \<and>
            id_n ` set ds = {d. (d, i) \<in> (set (edges items))\<^sup>+} \<and>
            removeItem items i =
              Some (Returned, filter (\<lambda>n. id_n n \<noteq> i \<and> n \<notin> set ds) items))) \<and>
   (i \<notin> id_n ` set items \<longrightarrow> removeItem items i = Some (Thrown (NotFoundError i), items))"
proof (intro conjI impI)
  assume a: "forest items \<and> i \<in> id_n ` set items"
  then have acyc: "acyclic (set (edges items))" and dist: "distinct (map id_n items)"
    by (simp_all add: forest_def)
  from a have "getItemById items i \<noteq> None" by (simp add: getItemById_None)
  with acyc obtain ds where ds: "getAllChildren items i = Some ds"
    and rm: "removeItem items i =
      Some (Returned, filter (\<lambda>n. id_n n \<noteq> i \<and> id_n n \<notin> id_n ` set ds) items)"
    using removeItem_result by blast
  have sub: "set ds \<subseteq> set items" using acyc ds by (rule getAllChildren_subset)
  have inj: "inj_on id_n (set items)" using dist by (simp add: distinct_map)
  have "id_n n \<notin> id_n ` set ds \<longleftrightarrow> n \<notin> set ds" if "n \<in> set items" for n
    using that sub inj by (auto dest: inj_onD)
  then have "filter (\<lambda>n. id_n n \<noteq> i \<and> id_n n \<notin> id_n ` set ds) items
           = filter (\<lambda>n. id_n n \<noteq> i \<and> n \<notin> set ds) items"
    by (intro filter_cong) auto
  with rm have "removeItem items i =
      Some (Returned, filter (\<lambda>n. id_n n \<noteq> i \<and> n \<notin> set ds) items)" by simp
  moreover have "id_n ` set ds = {d. (d, i) \<in> (set (edges items))\<^sup>+}"
    using acyc ds by (rule getAllChildren_ids)
  ultimately show "\<exists>ds. getAllChildren items i = Some ds \<and>
            id_n ` set ds = {d. (d, i) \<in> (set (edges items))\<^sup>+} \<and>
            removeItem items i =
              Some (Returned, filter (\<lambda>n. id_n n \<noteq> i \<and> n \<notin> set ds) items)"
    using ds by blast
next
  assume "i \<notin> id_n ` set items"
  then show "removeItem items i = Some (Thrown (NotFoundError i), items)"
    by (simp add: removeItem_def getItemById_None [symmetric])
qed

lemma getAllChildren_tree3_2:
  "getAllChildren tree3 ''2'' = Some [\<lparr>id_n = ''3'', parent = Some ''2'', label = ''B''\<rparr>]"
  by (simp add: getAllChildren.simps tree3_def getChildren_def cong: forEach_push_weak_cong)

theorem removeItem_removes_subtree_witness:
  "removeItem tree3 ''2'' = Some (Returned, [\<lparr>id_n = ''1'', parent = None, label = ''Root''\<rparr>]) \<and>
   removeItem tree3 ''999'' = Some (Thrown (NotFoundError ''999''), tree3)"
proof -
  have "forest tree3 \<and> ''2'' \<in> id_n ` set tree3"
    using forest_tree3 by (simp add: tree3_def)
  with removeItem_removes_subtree [of tree3 "''2''"]
  have "removeItem tree3 ''2'' = Some (Returned,
          filter (\<lambda>n. id_n n \<noteq> ''2'' \<and> n \<notin> set [\<lparr>id_n = ''3'', parent = Some ''2'', label = ''B''\<rparr>]) tree3)"
    by (auto simp: getAllChildren_tree3_2)
  then have "removeItem tree3 ''2'' = Some (Returned, [\<lparr>id_n = ''1'', parent = None, label = ''Root''\<rparr>])"
    by (simp add: tree3_def)
  moreover have "removeItem tree3 ''999'' = Some (Thrown (NotFoundError ''999''), tree3)"
    using removeItem_removes_subtree [of tree3 "''999''"] by (simp add: tree3_def)
  ultimately show ?thesis by simp
qed

section \<open>Actions that keep the forest invariant\<close>

text \<open>
  A call of \<open>addItem\<close> or \<open>removeItem\<close> that returns on a forest leaves a forest.
\<close>

lemma addItem_preserves_forest:
  assumes "forest items" and "addItem items item = (Returned, items')"
  shows "forest items'"
proof -
  let ?new = "newItem item"
  from assms(2) have fresh: "id_n ?new \<notin> id_n ` set items"
    and par: "\<And>p. parent ?new = Some p \<Longrightarrow> p \<in> id_n ` set items"
    and items': "items' = items @ [?new]"
    by (auto simp: addItem_def Let_def getItemById_None split: option.splits if_splits)
  from assms(1) have dist: "distinct (map id_n items)"
    and res: "\<forall>n \<in> set items. \<forall>p. parent n = Some p \<longrightarrow> p \<in> id_n ` set items"
    and acyc: "acyclic (set (edges items))"
    by (simp_all add: forest_def parents_resolve_iff)
  have "distinct (map id_n items')"
    using dist fresh by (simp add: items')
  moreover have "parents_resolve items'"
    unfolding parents_resolve_iff using res par by (auto simp: items')
  moreover have "acyclic (set (edges items'))"
  proof (cases "parent ?new")
    case None
    then show ?thesis using acyc by (simp add: items' edges_append edges_def)
  next
    case (Some p)
    have "(p, id_n ?new) \<notin> (set (edges items))\<^sup>*"
    proof
      assume "(p, id_n ?new) \<in> (set (edges items))\<^sup>*"
      moreover have "p \<noteq> id_n ?new" using par [OF Some] fresh by metis
      ultimately have "(p, id_n ?new) \<in> (set (edges items))\<^sup>+"
        by (simp add: rtrancl_eq_or_trancl)
      then obtain x where "(x, id_n ?new) \<in> set (edges items)"
        by (auto elim: tranclE)
      then have "id_n ?new \<in> id_n ` set items"
        using res by (auto simp: edges_iff)
      with fresh show False by simp
    qed
    then show ?thesis using acyc Some by (simp add: items' edges_append edges_def)
  qed
  ultimately show ?thesis by (simp add: forest_def)
qed

lemma removeItem_preserves_forest:
  assumes "forest items" and "removeItem items i = Some (Returned, items')"
  shows "forest items'"
proof -
  let ?E = "set (edges items)"
  from assms(1) have dist: "distinct (map id_n items)"
    and res: "\<forall>n \<in> set items. \<forall>p. parent n = Some p \<longrightarrow> p \<in> id_n ` set items"
    and acyc: "acyclic ?E"
    by (simp_all add: forest_def parents_resolve_iff)
  from assms(2) have found: "getItemById items i \<noteq> None"
    by (auto simp: removeItem_def split: option.splits)
  with acyc obtain ds where ds: "getAllChildren items i = Some ds"
    and rm: "removeItem items i =
      Some (Returned, filter (\<lambda>n. id_n n \<noteq> i \<and> id_n n \<notin> id_n ` set ds) items)"
    using removeItem_result by blast
  have ids: "id_n ` set ds = {d. (d, i) \<in> ?E\<^sup>+}"
    using acyc ds by (rule getAllChildren_ids)
  let ?keep = "\<lambda>n. id_n n \<noteq> i \<and> (id_n n, i) \<notin> ?E\<^sup>+"
  have items': "items' = filter ?keep items"
    using rm assms(2) by (simp add: ids)
  have "distinct (map id_n items')"
    using dist by (simp add: items' distinct_map_filter)
  moreover have "parents_resolve items'"
    unfolding parents_resolve_iff
  proof (intro ballI allI impI)
    fix n p assume n: "n \<in> set items'" and p: "parent n = Some p"
    from n have n_in: "n \<in> set items" and keep: "?keep n" by (simp_all add: items')
    from n_in p have edge: "(id_n n, p) \<in> ?E" by (auto simp: edges_iff)
    from n_in p res obtain m where m: "m \<in> set items" "id_n m = p" by blast
    have "p \<noteq> i" using edge keep by auto
    moreover have "(p, i) \<notin> ?E\<^sup>+"
    proof
      assume "(p, i) \<in> ?E\<^sup>+"
      with edge have "(id_n n, i) \<in> ?E\<^sup>+" by (rule trancl_into_trancl2)
      with keep show False by simp
    qed
    ultimately have "m \<in> set items'" using m by (simp add: items')
    then show "p \<in> id_n ` set items'" using m(2) by blast
  qed
  moreover have "acyclic (set (edges items'))"
    using acyc edges_filter_subset unfolding items' by (rule acyclic_subset)
  ultimately show ?thesis by (simp add: forest_def)
qed

text \<open>
  Claim C1. Every call of \<open>addItem\<close>, \<open>removeItem\<close> or \<open>updateItem\<close> that returns
  on a forest should leave a forest. \<open>updateItem\<close> does not: on the scenario of the
  specification, giving node 1 its grandchild 3 as parent returns, and the collection it
  leaves has the cycle 1, 3, 2, 1.
\<close>

theorem updateItem_breaks_forest:
  "forest tree3 \<and>
   updateItem tree3 \<lparr>in_id = Str ''1'', in_parent = Some (Str ''3''), in_label = ''Root''\<rparr>
     = Some (Returned, [\<lparr>id_n = ''1'', parent = Some ''3'', label = ''Root''\<rparr>,
                        \<lparr>id_n = ''2'', parent = Some ''1'', label = ''A''\<rparr>,
                        \<lparr>id_n = ''3'', parent = Some ''2'', label = ''B''\<rparr>]) \<and>
   \<not> forest [\<lparr>id_n = ''1'', parent = Some ''3'', label = ''Root''\<rparr>,
             \<lparr>id_n = ''2'', parent = Some ''1'', label = ''A''\<rparr>,
             \<lparr>id_n = ''3'', parent = Some ''2'', label = ''B''\<rparr>]"
proof (intro conjI)
  show "forest tree3" by (rule forest_tree3)
  show "updateItem tree3 \<lparr>in_id = Str ''1'', in_parent = Some (Str ''3''), in_label = ''Root''\<rparr>
     = Some (Returned, [\<lparr>id_n = ''1'', parent = Some ''3'', label = ''Root''\<rparr>,
                        \<lparr>id_n = ''2'', parent = Some ''1'', label = ''A''\<rparr>,
                        \<lparr>id_n = ''3'', parent = Some ''2'', label = ''B''\<rparr>])"
    by (simp add: updateItem_def newItem_def tree3_def getItemById_def getAllParents.simps)
  show "\<not> forest [\<lparr>id_n = ''1'', parent = Some ''3'', label = ''Root''\<rparr>,
             \<lparr>id_n = ''2'', parent = Some ''1'', label = ''A''\<rparr>,
             \<lparr>id_n = ''3'', parent = Some ''2'', label = ''B''\<rparr>]"
    by code_simp
qed

section \<open>The order of getAllChildren\<close>

text \<open>
  Claim C4, as stated: \<open>getAllChildren\<close> returns the descendants in pre-order. On the
  collection of the store's own test the source returns the ids 2, 3, 4, 5, as that test
  expects, where pre-order is 2, 4, 5, 3.
\<close>

theorem getAllChildren_not_preorder:
  "forest tree5 \<and>
   map_option (map id_n) (getAllChildren tree5 ''1'') = Some [''2'', ''3'', ''4'', ''5''] \<and>
   map_option (map id_n) (getAllChildren_preorder tree5 ''1'') = Some [''2'', ''4'', ''5'', ''3'']"
proof (intro conjI)
  show "forest tree5" by (rule forest_tree5)
  show "map_option (map id_n) (getAllChildren tree5 ''1'') = Some [''2'', ''3'', ''4'', ''5'']"
    by (simp add: getAllChildren.simps tree5_def getChildren_def cong: forEach_push_weak_cong)
  show "map_option (map id_n) (getAllChildren_preorder tree5 ''1'') = Some [''2'', ''4'', ''5'', ''3'']"
    by (simp add: getAllChildren_preorder.simps tree5_def getChildren_def cong: forEach_push_weak_cong)
qed

text \<open>
  Claim C4, amended. On a forest, \<open>getAllChildren\<close> of an id returns all the direct
  children first, in \<open>getChildren\<close> order, and after them the sequences that
  \<open>getAllChildren\<close> returns for each direct child, in the same order.
\<close>

theorem getAllChildren_children_first:
  assumes "forest items"
  shows "\<exists>dss. list_all2 (\<lambda>c sub. getAllChildren items (id_n c) = Some sub) (getChildren items i) dss \<and>
           getAllChildren items i = Some (getChildren items i @ concat dss)"
proof -
  from assms obtain ds where "getAllChildren items i = Some ds"
    using getAllChildren_returns by (auto simp: forest_def)
  then show ?thesis
    by (subst (asm) getAllChildren.simps, subst getAllChildren.simps)
       (auto simp: Let_def forEach_push_Some_iff)
qed

theorem getAllChildren_children_first_witness:
  "forest tree5 \<and>
   getAllChildren tree5 ''1'' =
     Some (getChildren tree5 ''1'' @
           concat [[\<lparr>id_n = ''4'', parent = Some ''2'', label = ''Grandchild 1''\<rparr>,
                    \<lparr>id_n = ''5'', parent = Some ''2'', label = ''Grandchild 2''\<rparr>], []])"
proof -
  from getAllChildren_children_first [OF forest_tree5, of "''1''"] obtain dss where
    dss: "list_all2 (\<lambda>c sub. getAllChildren tree5 (id_n c) = Some sub) (getChildren tree5 ''1'') dss"
    and r: "getAllChildren tree5 ''1'' = Some (getChildren tree5 ''1'' @ concat dss)"
    by blast
  have c: "getChildren tree5 ''1'' = [\<lparr>id_n = ''2'', parent = Some ''1'', label = ''Child 1''\<rparr>,
            \<lparr>id_n = ''3'', parent = Some ''1'', label = ''Child 2''\<rparr>]"
    by (simp add: tree5_def getChildren_def)
  have g2: "getAllChildren tree5 ''2'' = Some [\<lparr>id_n = ''4'', parent = Some ''2'', label = ''Grandchild 1''\<rparr>,
                    \<lparr>id_n = ''5'', parent = Some ''2'', label = ''Grandchild 2''\<rparr>]"
    by (simp add: getAllChildren.simps tree5_def getChildren_def cong: forEach_push_weak_cong)
  have g3: "getAllChildren tree5 ''3'' = Some []"
    by (simp add: getAllChildren.simps tree5_def getChildren_def cong: forEach_push_weak_cong)
  from dss have "dss = [[\<lparr>id_n = ''4'', parent = Some ''2'', label = ''Grandchild 1''\<rparr>,
                    \<lparr>id_n = ''5'', parent = Some ''2'', label = ''Grandchild 2''\<rparr>], []]"
    unfolding c by (auto simp: list_all2_Cons1 g2 g3)
  with r forest_tree5 show ?thesis by simp
qed

section \<open>getAllParents\<close>

lemma getAllParents_chain:
  "getAllParents items i = Some ps \<Longrightarrow> ancestor_chain items i ps"
proof (induction ps arbitrary: i)
  case Nil
  then show ?case
    by (subst (asm) getAllParents.simps)
       (auto split: option.splits if_splits simp: bind_eq_Some_conv
             intro: ancestor_chain.intros)
next
  case (Cons m ps)
  from Cons.prems obtain n p where
    n: "getItemById items i = Some n" and p: "parent n = Some p" "p \<noteq> []"
    and m: "getItemById items p = Some m" and rest: "getAllParents items (id_n m) = Some ps"
    by (subst (asm) getAllParents.simps)
       (auto split: option.splits if_splits simp: bind_eq_Some_conv)
  from m have "id_n m = p" by (auto dest: getItemById_Some)
  with rest have "ancestor_chain items p ps" by (auto intro: Cons.IH)
  with n p m show ?case by (rule ancestor_chain.step)
qed

lemma getAllParents_subset:
  "getAllParents items i = Some ps \<Longrightarrow> set ps \<subseteq> set items"
proof (induction ps arbitrary: i)
  case Nil
  show ?case by simp
next
  case (Cons m ps)
  from Cons.prems obtain p where
    m: "getItemById items p = Some m" and rest: "getAllParents items (id_n m) = Some ps"
    by (subst (asm) getAllParents.simps)
       (auto split: option.splits if_splits simp: bind_eq_Some_conv)
  from m have "m \<in> set items" by (auto dest: getItemById_Some)
  moreover from rest have "set ps \<subseteq> set items" by (rule Cons.IH)
  ultimately show ?case by simp
qed

lemma loop1_never_returns:
  assumes "getAllParents loop1 ''1'' = Some ps"
  shows False
proof -
  have "loop1 = loop1 \<longrightarrow> ''1'' = ''1'' \<longrightarrow> False"
  proof (rule getAllParents.raw_induct
      [where P = "\<lambda>items i ps. items = loop1 \<longrightarrow> i = ''1'' \<longrightarrow> False", OF _ assms], goal_cases)
    case (1 f items i ps)
    show ?case
    proof (intro impI)
      assume eq: "items = loop1" "i = ''1''"
      with 1(2) obtain y where "f loop1 ''1'' = Some y"
        by (auto simp: loop1_def getItemById_def bind_eq_Some_conv)
      with 1(1) show False by blast
    qed
  qed
  then show False by simp
qed

text \<open>
  Claim C8, as stated for every collection: \<open>getAllParents\<close> returns the ancestor
  chain. On a node that is its own parent the recursion never returns.
\<close>

theorem getAllParents_diverges_on_cycle: "getAllParents loop1 ''1'' = None"
proof (cases "getAllParents loop1 ''1''")
  case None
  then show ?thesis .
next
  case (Some ps)
  then show ?thesis using loop1_never_returns by blast
qed

text \<open>
  Claim C8, amended. On a collection in which no id reaches itself along the parent links,
  \<open>getAllParents\<close> returns for every id, and what it returns is the ancestor chain,
  nearest ancestor first: empty for an id that resolves to no node and for a root, and
  ending, without an error, where a parent id resolves to no node.
\<close>

theorem getAllParents_chain_total:
  assumes "acyclic (set (edges items))"
  shows "\<exists>ps. getAllParents items i = Some ps \<and> ancestor_chain items i ps \<and>
           (getItemById items i = None \<longrightarrow> ps = []) \<and>
           (\<forall>n. getItemById items i = Some n \<and> parent n = None \<longrightarrow> ps = []) \<and>
           (\<forall>n p. getItemById items i = Some n \<and> parent n = Some p \<and>
                  getItemById items p = None \<longrightarrow> ps = [])"
proof -
  from assms obtain ps where ps: "getAllParents items i = Some ps"
    using getAllParents_returns by blast
  then have c0: "ancestor_chain items i ps" by (rule getAllParents_chain)
  have c1: "getItemById items i = None \<longrightarrow> ps = []"
    using ps by (subst (asm) getAllParents.simps) auto
  have c2: "\<forall>n. getItemById items i = Some n \<and> parent n = None \<longrightarrow> ps = []"
    using ps by (subst (asm) getAllParents.simps) auto
  have c3: "\<forall>n p. getItemById items i = Some n \<and> parent n = Some p \<and>
                  getItemById items p = None \<longrightarrow> ps = []"
    using ps by (subst (asm) getAllParents.simps) (auto split: if_splits)
  show ?thesis
    by (intro exI [of _ ps] conjI) (rule ps c0 c1 c2 c3)+
qed

theorem getAllParents_chain_total_witness:
  "acyclic (set (edges tree3)) \<and>
   getAllParents tree3 ''3'' = Some [\<lparr>id_n = ''2'', parent = Some ''1'', label = ''A''\<rparr>,
                                     \<lparr>id_n = ''1'', parent = None, label = ''Root''\<rparr>] \<and>
   ancestor_chain tree3 ''3'' [\<lparr>id_n = ''2'', parent = Some ''1'', label = ''A''\<rparr>,
                               \<lparr>id_n = ''1'', parent = None, label = ''Root''\<rparr>] \<and>
   acyclic (set (edges orphan2)) \<and>
   getAllParents orphan2 ''3'' = Some [\<lparr>id_n = ''2'', parent = Some ''9'', label = ''A''\<rparr>] \<and>
   ancestor_chain orphan2 ''3'' [\<lparr>id_n = ''2'', parent = Some ''9'', label = ''A''\<rparr>]"
proof -
  have a3: "acyclic (set (edges tree3))" by code_simp
  have a2: "acyclic (set (edges orphan2))" by code_simp
  have e3: "getAllParents tree3 ''3'' = Some [\<lparr>id_n = ''2'', parent = Some ''1'', label = ''A''\<rparr>,
                                     \<lparr>id_n = ''1'', parent = None, label = ''Root''\<rparr>]"
    by (simp add: getAllParents.simps tree3_def getItemById_def)
  have e2: "getAllParents orphan2 ''3'' = Some [\<lparr>id_n = ''2'', parent = Some ''9'', label = ''A''\<rparr>]"
    by (simp add: getAllParents.simps orphan2_def getItemById_def)
  show ?thesis
    using getAllParents_chain_total [OF a3, of "''3''"] getAllParents_chain_total [OF a2, of "''3''"]
      a3 a2 by (simp add: e3 e2)
qed

section \<open>updateItem\<close>






text \<open>
  Claim C2. Giving a node one of its descendants as parent should throw the cycle error
  and leave the collection as it was. On the collection of the store's own test of this
  check, where node 2 is the child of node 1, giving node 1 the parent 2 returns and
  stores the new parent: the check looks for the new parent among the ancestors of the
  node, which are none.
\<close>

theorem updateItem_accepts_descendant:
  "forest tree2 \<and>
   getAllChildren tree2 ''1'' = Some [\<lparr>id_n = ''2'', parent = Some ''1'', label = ''Child''\<rparr>] \<and>
   updateItem tree2 \<lparr>in_id = Str ''1'', in_parent = Some (Str ''2''), in_label = ''Root''\<rparr>
     = Some (Returned, [\<lparr>id_n = ''1'', parent = Some ''2'', label = ''Root''\<rparr>,
                        \<lparr>id_n = ''2'', parent = Some ''1'', label = ''Child''\<rparr>])"
proof (intro conjI)
  show "forest tree2" by (rule forest_tree2)
  show "getAllChildren tree2 ''1'' = Some [\<lparr>id_n = ''2'', parent = Some ''1'', label = ''Child''\<rparr>]"
    by (simp add: getAllChildren.simps tree2_def getChildren_def cong: forEach_push_weak_cong)
  show "updateItem tree2 \<lparr>in_id = Str ''1'', in_parent = Some (Str ''2''), in_label = ''Root''\<rparr>
     = Some (Returned, [\<lparr>id_n = ''1'', parent = Some ''2'', label = ''Root''\<rparr>,
                        \<lparr>id_n = ''2'', parent = Some ''1'', label = ''Child''\<rparr>])"
    by (simp add: updateItem_def newItem_def tree2_def getItemById_def getAllParents.simps)
qed

text \<open>
  The same holds on every forest: \<open>getAllParents\<close> returns only ids above the node,
  so a descendant is never among them, and the update to a descendant with a non-empty id
  returns with the new parent stored.
\<close>

lemma getAllParents_ids_ancestors:
  "getAllParents items i = Some ps \<Longrightarrow> id_n ` set ps \<subseteq> {a. (i, a) \<in> (set (edges items))\<^sup>+}"
proof (induction ps arbitrary: i)
  case Nil
  show ?case by simp
next
  case (Cons m ps)
  let ?E = "set (edges items)"
  from Cons.prems obtain n p where
    n: "getItemById items i = Some n" and p: "parent n = Some p"
    and m: "getItemById items p = Some m" and rest: "getAllParents items (id_n m) = Some ps"
    by (subst (asm) getAllParents.simps)
       (auto split: option.splits if_splits simp: bind_eq_Some_conv)
  from m have idm: "id_n m = p" by (auto dest: getItemById_Some)
  from n p have edge: "(i, p) \<in> ?E" by (auto simp: edges_iff dest: getItemById_Some)
  from rest have "id_n ` set ps \<subseteq> {a. (p, a) \<in> ?E\<^sup>+}"
    unfolding idm [symmetric] by (rule Cons.IH)
  then have "id_n ` set ps \<subseteq> {a. (i, a) \<in> ?E\<^sup>+}"
    using edge by (auto intro: trancl_into_trancl2)
  moreover have "(i, id_n m) \<in> ?E\<^sup>+" using edge idm by auto
  ultimately show ?case by simp
qed

lemma updateItem_descendant_returns:
  assumes "forest items" and "getItemById items i = Some n"
    and "getAllChildren items i = Some ds" and "d \<in> set ds" and "id_n d \<noteq> []"
  shows "updateItem items \<lparr>in_id = Str i, in_parent = Some (Str (id_n d)), in_label = l\<rparr>
           = Some (Returned,
               map (\<lambda>item. if id_n item = i
                      then \<lparr>id_n = i, parent = Some (id_n d), label = l\<rparr> else item) items)"
proof -
  let ?E = "set (edges items)"
  let ?u = "\<lparr>in_id = Str i, in_parent = Some (Str (id_n d)), in_label = l\<rparr>"
  from assms(1) have acyc: "acyclic ?E" by (simp add: forest_def)
  have new: "newItem ?u = \<lparr>id_n = i, parent = Some (id_n d), label = l\<rparr>"
    using assms(5) by (simp add: newItem_def)
  from assms(2) have n: "n \<in> set items" "id_n n = i" by (auto dest: getItemById_Some)
  have down: "(id_n d, i) \<in> ?E\<^sup>+"
    using getAllChildren_ids [OF acyc assms(3)] assms(4) by blast
  have no_up: "(i, id_n d) \<notin> ?E\<^sup>+"
  proof
    assume "(i, id_n d) \<in> ?E\<^sup>+"
    with down have "(i, i) \<in> ?E\<^sup>+" by (rule trancl_trans [rotated])
    with acyc show False by (simp add: acyclic_def)
  qed
  have differs: "parent n \<noteq> Some (id_n d)"
  proof
    assume "parent n = Some (id_n d)"
    with n have "(i, id_n d) \<in> ?E" by (auto simp: edges_iff)
    with no_up show False by auto
  qed
  have "d \<in> set items"
    using getAllChildren_subset [OF acyc assms(3)] assms(4) by blast
  then obtain m where m: "getItemById items (id_n d) = Some m"
    using getItemById_None [of items "id_n d"] by (cases "getItemById items (id_n d)") auto
  from acyc obtain ps where ps: "getAllParents items i = Some ps"
    using getAllParents_returns by blast
  have "\<not> list_ex (\<lambda>par. id_n par = id_n d) ps"
    using getAllParents_ids_ancestors [OF ps] no_up by (auto simp: list_ex_iff)
  then show ?thesis
    using assms(2) n(2) differs m ps by (simp add: updateItem_def new Let_def)
qed

text \<open>
  Claim C3. When the new parent is not null and differs from the current one, the cycle
  error should be thrown exactly when the new parent is the node itself or one of the
  ancestors that \<open>getAllParents\<close> returns for it. Giving a single root itself as parent
  returns and stores the node as its own parent.
\<close>

theorem updateItem_accepts_self_parent:
  "forest tree1 \<and>
   updateItem tree1 \<lparr>in_id = Str ''1'', in_parent = Some (Str ''1''), in_label = ''Root''\<rparr>
     = Some (Returned, [\<lparr>id_n = ''1'', parent = Some ''1'', label = ''Root''\<rparr>])"
proof (intro conjI)
  show "forest tree1" by (rule forest_tree1)
  show "updateItem tree1 \<lparr>in_id = Str ''1'', in_parent = Some (Str ''1''), in_label = ''Root''\<rparr>
     = Some (Returned, [\<lparr>id_n = ''1'', parent = Some ''1'', label = ''Root''\<rparr>])"
    by (simp add: updateItem_def newItem_def tree1_def getItemById_def getAllParents.simps)
qed

text \<open>
  What the check does catch: when the new parent is not null, differs from the current one
  and \<open>getAllParents\<close> returns for the node, the cycle error is thrown exactly when the
  new parent is the id of one of the nodes returned.
\<close>

lemma updateItem_CycleError_iff:
  assumes "getItemById items (id_n (newItem u)) = Some n"
    and "parent (newItem u) = Some p" and "parent n \<noteq> Some p"
    and "getAllParents items (id_n n) = Some ps"
  shows "updateItem items u = Some (Thrown CycleError, items) \<longleftrightarrow> p \<in> id_n ` set ps"
proof
  assume "updateItem items u = Some (Thrown CycleError, items)"
  with assms show "p \<in> id_n ` set ps"
    by (auto simp: updateItem_def Let_def list_ex_iff split: option.splits if_splits)
next
  assume p: "p \<in> id_n ` set ps"
  moreover have "set ps \<subseteq> set items" using assms(4) by (rule getAllParents_subset)
  ultimately have "getItemById items p \<noteq> None"
    by (auto simp: getItemById_None)
  with assms p show "updateItem items u = Some (Thrown CycleError, items)"
    by (auto simp: updateItem_def Let_def list_ex_iff split: option.splits)
qed

section \<open>initialize\<close>

text \<open>
  Claim C6, as stated: after \<open>initialize\<close> the parent of a node is the string form of
  the input parent whenever that is not null, and \<open>getItemById\<close> on the string form of
  each input id returns the node of that input. The parent 0 is stored as null, and of two
  inputs with the same string-form id \<open>getItemById\<close> returns the node of the first.
\<close>

theorem initialize_not_round_trip:
  "initialize [\<lparr>in_id = Num (safe 0), in_parent = None, in_label = ''Root''\<rparr>,
               \<lparr>in_id = Num (safe 1), in_parent = Some (Num (safe 0)), in_label = ''Child''\<rparr>]
     = [\<lparr>id_n = ''0'', parent = None, label = ''Root''\<rparr>,
        \<lparr>id_n = ''1'', parent = None, label = ''Child''\<rparr>] \<and>
   getItemById (initialize [\<lparr>in_id = Num (safe 1), in_parent = None, in_label = ''First''\<rparr>,
                            \<lparr>in_id = Str ''1'', in_parent = None, in_label = ''Second''\<rparr>]) ''1''
     = Some \<lparr>id_n = ''1'', parent = None, label = ''First''\<rparr>"
  by (simp add: initialize_def newItem_def getItemById_def digits.simps digit_of_def safe_inverse)

lemma find_distinct_nth:
  "distinct (map f xs) \<Longrightarrow> k < length xs \<Longrightarrow> find (\<lambda>x. f x = f (xs ! k)) xs = Some (xs ! k)"
proof (induction xs arbitrary: k)
  case Nil
  then show ?case by simp
next
  case (Cons x xs)
  show ?case
  proof (cases k)
    case 0
    then show ?thesis by simp
  next
    case (Suc j)
    with Cons.prems have j: "j < length xs" and fresh: "f x \<notin> f ` set xs"
      by auto
    from j have "xs ! j \<in> set xs" by simp
    with fresh have "f (xs ! j) \<noteq> f x"
      by (metis imageI)
    with Cons j Suc show ?thesis by auto
  qed
qed

text \<open>
  Claim C6, amended. After \<open>initialize\<close> the collection holds, position by position, a
  node for each input element: its id is the string form of the input id, its label is the
  input label, its parent is null when the input parent is null and is the string form of
  the input parent when that is truthy (a number other than 0, a string other than the
  empty one). When the string forms of the input ids are pairwise distinct, \<open>getItemById\<close>
  on the string form of each input id returns that node.
\<close>

theorem initialize_round_trip:
  "length (initialize X) = length X \<and>
   (\<forall>k < length X.
      id_n (initialize X ! k) = String_js (in_id (X ! k)) \<and>
      label (initialize X ! k) = in_label (X ! k) \<and>
      (in_parent (X ! k) = None \<longrightarrow> parent (initialize X ! k) = None) \<and>
      (\<forall>p. in_parent (X ! k) = Some p \<and> truthy p \<longrightarrow>
           parent (initialize X ! k) = Some (String_js p)) \<and>
      (distinct (map (\<lambda>x. String_js (in_id x)) X) \<longrightarrow>
         getItemById (initialize X) (String_js (in_id (X ! k))) = Some (initialize X ! k)))"
proof (intro conjI allI impI)
  show "length (initialize X) = length X" by (simp add: initialize_def)
next
  fix k assume k: "k < length X"
  show "id_n (initialize X ! k) = String_js (in_id (X ! k))"
    using k by (simp add: initialize_def newItem_def)
  show "label (initialize X ! k) = in_label (X ! k)"
    using k by (simp add: initialize_def newItem_def)
  show "parent (initialize X ! k) = None" if "in_parent (X ! k) = None"
    using k that by (simp add: initialize_def newItem_def)
  show "parent (initialize X ! k) = Some (String_js p)" if "in_parent (X ! k) = Some p \<and> truthy p" for p
    using k that by (simp add: initialize_def newItem_def)
  show "getItemById (initialize X) (String_js (in_id (X ! k))) = Some (initialize X ! k)"
    if d: "distinct (map (\<lambda>x. String_js (in_id x)) X)"
  proof -
    have ids: "map id_n (initialize X) = map (\<lambda>x. String_js (in_id x)) X"
      by (simp add: initialize_def newItem_def)
    have "find (\<lambda>x. id_n x = id_n (initialize X ! k)) (initialize X) = Some (initialize X ! k)"
      using d k by (intro find_distinct_nth) (simp_all add: ids, simp add: initialize_def)
    moreover have "id_n (initialize X ! k) = String_js (in_id (X ! k))"
      using k by (simp add: initialize_def newItem_def)
    ultimately show ?thesis by (simp add: getItemById_def)
  qed
qed

theorem initialize_round_trip_witness:
  "initialize [\<lparr>in_id = Num (safe 1), in_parent = None, in_label = ''Root''\<rparr>,
               \<lparr>in_id = Num (safe 2), in_parent = Some (Num (safe 1)), in_label = ''Child''\<rparr>] ! 1
     = \<lparr>id_n = ''2'', parent = Some ''1'', label = ''Child''\<rparr> \<and>
   getItemById (initialize [\<lparr>in_id = Num (safe 1), in_parent = None, in_label = ''Root''\<rparr>,
               \<lparr>in_id = Num (safe 2), in_parent = Some (Num (safe 1)), in_label = ''Child''\<rparr>]) ''2''
     = Some \<lparr>id_n = ''2'', parent = Some ''1'', label = ''Child''\<rparr>"
  using initialize_round_trip [of "[\<lparr>in_id = Num (safe 1), in_parent = None, in_label = ''Root''\<rparr>,
               \<lparr>in_id = Num (safe 2), in_parent = Some (Num (safe 1)), in_label = ''Child''\<rparr>]"]
  by (simp add: initialize_def newItem_def getItemById_def digits.simps digit_of_def safe_inverse)

end
